theory Spec2Isabelle
  imports Main "HOL-Library.Word" "HOL-Library.Signed_Division"
begin

unbundle bit_operations_syntax

section \<open>Reserved IP address classification (ip/reservedip/reservedip.cpp)\<close>

text \<open>
  The two entry points return a C \<open>int\<close> that is 0 or 1. A read outside an array is
  undefined behaviour in the source; the model makes it a value, \<open>Inl OutOfBounds\<close>,
  so that "the function never fails" is a statement about the model and not an
  artefact of HOL's total \<open>nth\<close>.
\<close>

datatype fault = OutOfBounds

type_synonym 'a result = "fault + 'a"

subsection \<open>IPv4: the range table\<close>

text \<open>
  \<open>struct IPv4Range { uint32_t start; uint32_t end; }\<close>. The field \<open>end\<close> is a
  keyword of Isabelle, so it is called \<open>end_ip\<close> (the source's comment speaks of
  \<open>[start_ip, end_ip]\<close>). Comparison on \<open>32 word\<close> is the unsigned one, as on
  \<open>uint32_t\<close>.
\<close>

record IPv4Range =
  start :: "32 word"
  end_ip :: "32 word"

definition ipv4_reserved_ranges :: "IPv4Range list" where
  "ipv4_reserved_ranges =
    [ \<lparr>start = 0x00000000, end_ip = 0x00FFFFFF\<rparr>,
      \<lparr>start = 0x64400000, end_ip = 0x647FFFFF\<rparr>,
      \<lparr>start = 0xC0000000, end_ip = 0xC0000007\<rparr>,
      \<lparr>start = 0xC0000200, end_ip = 0xC00002FF\<rparr>,
      \<lparr>start = 0xC0586300, end_ip = 0xC05863FF\<rparr>,
      \<lparr>start = 0xC6120000, end_ip = 0xC613FFFF\<rparr>,
      \<lparr>start = 0xC6336400, end_ip = 0xC63364FF\<rparr>,
      \<lparr>start = 0xCB007100, end_ip = 0xCB0071FF\<rparr>,
      \<lparr>start = 0xE0000000, end_ip = 0xFFFFFFFF\<rparr> ]"

definition ipv4_ranges_count :: int where
  "ipv4_ranges_count = int (length ipv4_reserved_ranges)"

subsection \<open>IPv4: the binary search\<close>

text \<open>
  The \<open>while (left <= right)\<close> loop of \<open>IsReservedIPv4\<close>, as a recursion on the two
  loop variables. \<open>left\<close>, \<open>right\<close> and \<open>mid\<close> are C \<open>int\<close>s; with nine
  table entries they stay between -1 and 9, so no 32-bit wrap-around can occur and
  they are modelled as \<open>int\<close>.
  C's \<open>/\<close> truncates towards zero: \<open>sdiv\<close>. The read \<open>ipv4_reserved_ranges[mid]\<close> is
  guarded: an index outside the table is \<open>Inl OutOfBounds\<close>.
\<close>

function IsReservedIPv4_loop :: "32 word \<Rightarrow> int \<Rightarrow> int \<Rightarrow> int result" where
  "IsReservedIPv4_loop ip_host left right =
    (if left \<le> right then
       (let mid = (left + right) sdiv 2 in
        if mid < 0 \<or> ipv4_ranges_count \<le> mid then Inl OutOfBounds
        else
          (let range = ipv4_reserved_ranges ! nat mid in
           if ip_host \<ge> start range \<and> ip_host \<le> end_ip range then Inr 1
           else if ip_host < start range then IsReservedIPv4_loop ip_host left (mid - 1)
           else IsReservedIPv4_loop ip_host (mid + 1) right))
     else Inr 0)"
  by pat_completeness auto
termination
proof (relation "measure (\<lambda>(ip_host, left, right). nat (right - left + 1))")
  show "wf (measure (\<lambda>(ip_host, left, right). nat (right - left + 1)))"
    by simp
next
  fix ip_host :: "32 word" and left right mid :: int
  assume "left \<le> right" and "mid = (left + right) sdiv 2"
    and "\<not> (mid < 0 \<or> ipv4_ranges_count \<le> mid)"
  then have "mid \<le> right"
    by (auto simp: signed_divide_int_def sgn_if split: if_splits)
  with \<open>left \<le> right\<close>
  show "((ip_host, left, mid - 1), (ip_host, left, right))
      \<in> measure (\<lambda>(ip_host, left, right). nat (right - left + 1))"
    by simp
next
  fix ip_host :: "32 word" and left right mid :: int
  assume "left \<le> right" and "mid = (left + right) sdiv 2"
    and "\<not> (mid < 0 \<or> ipv4_ranges_count \<le> mid)"
  then have "left \<le> mid"
    by (auto simp: signed_divide_int_def sgn_if split: if_splits)
  with \<open>left \<le> right\<close>
  show "((ip_host, mid + 1, right), (ip_host, left, right))
      \<in> measure (\<lambda>(ip_host, left, right). nat (right - left + 1))"
    by simp
qed

declare IsReservedIPv4_loop.simps [simp del]

definition IsReservedIPv4 :: "32 word \<Rightarrow> int result" where
  "IsReservedIPv4 ip_host = IsReservedIPv4_loop ip_host 0 (ipv4_ranges_count - 1)"

subsection \<open>IPv6: the prefix table\<close>

text \<open>
  \<open>struct IPv6Prefix { uint8_t prefix[16]; uint8_t prefix_len; }\<close>. The array is a
  list of bytes; every entry of the table has all sixteen of them.
\<close>

record IPv6Prefix =
  prefix :: "8 word list"
  prefix_len :: "8 word"

definition ipv6_reserved_prefixes :: "IPv6Prefix list" where
  "ipv6_reserved_prefixes =
    [ \<lparr>prefix = [0,0,0,0,0,0,0,0,0,0,0,0,0,0,0,0], prefix_len = 128\<rparr>,
      \<lparr>prefix = [0,0,0,0,0,0,0,0,0,0,0xFF,0xFF,0,0,0,0], prefix_len = 96\<rparr>,
      \<lparr>prefix = [0x01,0x00,0,0,0,0,0,0,0,0,0,0,0,0,0,0], prefix_len = 64\<rparr>,
      \<lparr>prefix = [0x20,0x01,0,0,0,0,0,0,0,0,0,0,0,0,0,0], prefix_len = 32\<rparr>,
      \<lparr>prefix = [0x20,0x01,0x00,0x10,0,0,0,0,0,0,0,0,0,0,0,0], prefix_len = 28\<rparr>,
      \<lparr>prefix = [0x20,0x01,0x00,0x20,0,0,0,0,0,0,0,0,0,0,0,0], prefix_len = 28\<rparr>,
      \<lparr>prefix = [0x20,0x01,0x0d,0xb8,0,0,0,0,0,0,0,0,0,0,0,0], prefix_len = 32\<rparr>,
      \<lparr>prefix = [0xFF,0,0,0,0,0,0,0,0,0,0,0,0,0,0,0], prefix_len = 8\<rparr> ]"

definition ipv6_prefixes_count :: nat where
  "ipv6_prefixes_count = length ipv6_reserved_prefixes"

subsection \<open>IPv6: matching one prefix\<close>

text \<open>
  A read \<open>p[i]\<close> of a byte array. The address argument of \<open>IsReservedIPv6\<close> is a bare
  pointer; the list is the object it points to, and a read past its end is a fault.
\<close>

definition byte_at :: "8 word list \<Rightarrow> nat \<Rightarrow> 8 word result" where
  "byte_at p i = (if i < length p then Inr (p ! i) else Inl OutOfBounds)"

text \<open>
  The \<open>for\<close> loop of \<open>ipv6_matches_prefix\<close> over the complete bytes. It either leaves
  the function with 0 (\<open>Inr False\<close> here) or runs to its end (\<open>Inr True\<close>). The loop
  counter is a C \<open>int\<close> that only counts up from 0: a \<open>nat\<close>.
\<close>

function ipv6_matches_prefix_loop ::
  "8 word list \<Rightarrow> IPv6Prefix \<Rightarrow> nat \<Rightarrow> nat \<Rightarrow> bool result" where
  "ipv6_matches_prefix_loop ip p bytes_to_check i =
    (if i < bytes_to_check then
       (case byte_at ip i of
          Inl e \<Rightarrow> Inl e
        | Inr a \<Rightarrow>
            (case byte_at (prefix p) i of
               Inl e \<Rightarrow> Inl e
             | Inr b \<Rightarrow>
                 if a \<noteq> b then Inr False
                 else ipv6_matches_prefix_loop ip p bytes_to_check (i + 1)))
     else Inr True)"
  by pat_completeness auto
termination
  by (relation "measure (\<lambda>(ip, p, bytes_to_check, i). bytes_to_check - i)") auto

declare ipv6_matches_prefix_loop.simps [simp del]

text \<open>
  \<open>prefix_len / 8\<close> and \<open>prefix_len % 8\<close> are computed on the promoted, non-negative
  \<open>int\<close>. The mask is \<open>0xFF << (8 - remaining_bits)\<close> computed as an \<open>int\<close> and then
  converted to \<open>uint8_t\<close>, which keeps its low eight bits. The two operands of \<open>!=\<close>
  are bytes ANDed with that byte, so comparing them as bytes is comparing them as
  \<open>int\<close>s.
\<close>

definition ipv6_matches_prefix :: "8 word list \<Rightarrow> IPv6Prefix \<Rightarrow> int result" where
  "ipv6_matches_prefix ip p =
    (let bytes_to_check = unat (prefix_len p) div 8;
         remaining_bits = unat (prefix_len p) mod 8
     in case ipv6_matches_prefix_loop ip p bytes_to_check 0 of
          Inl e \<Rightarrow> Inl e
        | Inr completed \<Rightarrow>
            if \<not> completed then Inr 0
            else if remaining_bits > 0 then
              (let mask = (word_of_int (push_bit (8 - remaining_bits) 0xFF) :: 8 word)
               in case byte_at ip bytes_to_check of
                    Inl e \<Rightarrow> Inl e
                  | Inr a \<Rightarrow>
                      (case byte_at (prefix p) bytes_to_check of
                         Inl e \<Rightarrow> Inl e
                       | Inr b \<Rightarrow> if (a AND mask) \<noteq> (b AND mask) then Inr 0 else Inr 1))
            else Inr 1)"

subsection \<open>IPv6: the linear scan\<close>

text \<open>
  The \<open>for\<close> loop of \<open>IsReservedIPv6\<close>; \<open>if (ipv6_matches_prefix(...))\<close> tests the
  returned \<open>int\<close> against 0.
\<close>

function IsReservedIPv6_loop :: "8 word list \<Rightarrow> nat \<Rightarrow> int result" where
  "IsReservedIPv6_loop ip16 i =
    (if i < ipv6_prefixes_count then
       (case ipv6_matches_prefix ip16 (ipv6_reserved_prefixes ! i) of
          Inl e \<Rightarrow> Inl e
        | Inr m \<Rightarrow> if m \<noteq> 0 then Inr 1 else IsReservedIPv6_loop ip16 (i + 1))
     else Inr 0)"
  by pat_completeness auto
termination
  by (relation "measure (\<lambda>(ip16, i). ipv6_prefixes_count - i)") auto

declare IsReservedIPv6_loop.simps [simp del]

text \<open>The pointer argument is \<open>None\<close> when it is \<open>nullptr\<close>.\<close>

definition IsReservedIPv6 :: "8 word list option \<Rightarrow> int result" where
  "IsReservedIPv6 ip16 =
    (case ip16 of
       None \<Rightarrow> Inr 0
     | Some ip \<Rightarrow> IsReservedIPv6_loop ip 0)"

section \<open>Notions of the specification\<close>

text \<open>
  The definitions of this section are not code of the repository. They say in HOL what
  the specification's sentences speak of, and the theorems below compare the functions
  above with them.
\<close>

text \<open>An address lies in a closed range.\<close>

definition in_range :: "IPv4Range \<Rightarrow> 32 word \<Rightarrow> bool" where
  "in_range r a \<longleftrightarrow> start r \<le> a \<and> a \<le> end_ip r"

text \<open>
  The naive search of a range table: test the ranges in turn, from the first to the
  last, and answer 1 at the first one that holds the address.
\<close>

fun linear_scan :: "IPv4Range list \<Rightarrow> 32 word \<Rightarrow> int" where
  "linear_scan [] a = 0"
| "linear_scan (r # rs) a = (if in_range r a then 1 else linear_scan rs a)"

text \<open>
  A prefix match in the specification's words: the \<open>prefix_len / 8\<close> complete leading
  bytes are equal and, when \<open>prefix_len\<close> is not a multiple of 8, the next byte agrees
  under the mask \<open>0xFF << (8 - remaining_bits)\<close>.
\<close>

definition prefix_match :: "8 word list \<Rightarrow> IPv6Prefix \<Rightarrow> bool" where
  "prefix_match ip p \<longleftrightarrow>
    (let complete = unat (prefix_len p) div 8;
         remaining_bits = unat (prefix_len p) mod 8;
         mask = (push_bit (8 - remaining_bits) 0xFF :: 8 word)
     in take complete ip = take complete (prefix p) \<and>
        (remaining_bits = 0 \<or>
         (ip ! complete) AND mask = (prefix p ! complete) AND mask))"

text \<open>
  Bit \<open>k\<close> of an address in network order, counted from the most significant bit of
  the first byte, and agreement of two addresses on their \<open>n\<close> leading bits.
\<close>

definition addr_bit :: "8 word list \<Rightarrow> nat \<Rightarrow> bool" where
  "addr_bit ip k = bit (ip ! (k div 8)) (7 - k mod 8)"

definition leading_bits_agree :: "nat \<Rightarrow> 8 word list \<Rightarrow> 8 word list \<Rightarrow> bool" where
  "leading_bits_agree n ip q \<longleftrightarrow> (\<forall>k \<in> {..<n}. addr_bit ip k = addr_bit q k)"

text \<open>
  The sixteen bytes of an address written as eight 16-bit groups, as in
  \<open>2001:db8:0:0:0:0:0:0\<close>: each group gives its high byte, then its low byte.
\<close>

definition ipv6_of_groups :: "16 word list \<Rightarrow> 8 word list" where
  "ipv6_of_groups gs = concat (map (\<lambda>g. [ucast (drop_bit 8 g), ucast g]) gs)"

text \<open>
  A table entry is well formed when its array has sixteen bytes and its prefix length
  is at most 128 bits.
\<close>

definition prefix_wf :: "IPv6Prefix \<Rightarrow> bool" where
  "prefix_wf p \<longleftrightarrow> length (prefix p) = 16 \<and> unat (prefix_len p) \<le> 128"

section \<open>The IPv4 classifier\<close>

subsection \<open>The table\<close>

lemma ipv4_entries_wf: "list_all (\<lambda>r. start r \<le> end_ip r) ipv4_reserved_ranges"
  by (simp add: ipv4_reserved_ranges_def)

lemma ipv4_entries_separated:
  "sorted_wrt (\<lambda>r s. end_ip r < start s) ipv4_reserved_ranges"
  by (simp add: ipv4_reserved_ranges_def)

lemma ipv4_entries_ascending:
  "sorted_wrt (\<lambda>r s. start r < start s) ipv4_reserved_ranges"
  by (simp add: ipv4_reserved_ranges_def)

lemma ipv4_entry_start_le_end:
  "i < length ipv4_reserved_ranges \<Longrightarrow>
   start (ipv4_reserved_ranges ! i) \<le> end_ip (ipv4_reserved_ranges ! i)"
  using ipv4_entries_wf by (simp add: list_all_length)

lemma ipv4_entry_end_less_start:
  "i < j \<Longrightarrow> j < length ipv4_reserved_ranges \<Longrightarrow>
   end_ip (ipv4_reserved_ranges ! i) < start (ipv4_reserved_ranges ! j)"
  using ipv4_entries_separated by (simp add: sorted_wrt_iff_nth_less)

subsection \<open>The binary search finds exactly the addresses of the table\<close>

text \<open>
  The loop invariant: started on the indices \<open>left..right\<close> of the table, the loop
  answers whether one of these entries holds the address. An entry at or above
  \<open>mid\<close> cannot hold an address below \<open>start\<close> of the entry at \<open>mid\<close>, and an entry
  at or below \<open>mid\<close> cannot hold one above its \<open>end\<close>, because the table is sorted
  and its ranges are apart.
\<close>

lemma IsReservedIPv4_loop_correct:
  "0 \<le> left \<Longrightarrow> right < ipv4_ranges_count \<Longrightarrow>
   IsReservedIPv4_loop a left right =
     Inr (if \<exists>i. left \<le> i \<and> i \<le> right \<and> in_range (ipv4_reserved_ranges ! nat i) a
          then 1 else 0)"
proof (induction a left right rule: IsReservedIPv4_loop.induct)
  case (1 a left right)
  show ?case
  proof (cases "left \<le> right")
    case False
    then show ?thesis by (subst IsReservedIPv4_loop.simps) auto
  next
    case True
    define mid where "mid = (left + right) sdiv 2"
    have mid: "left \<le> mid" "mid \<le> right"
      using True "1.prems" by (auto simp: mid_def signed_divide_int_def sgn_if)
    have inb: "\<not> (mid < 0 \<or> ipv4_ranges_count \<le> mid)"
      using mid "1.prems" by auto
    define range where "range = ipv4_reserved_ranges ! nat mid"
    have rng: "nat mid < length ipv4_reserved_ranges"
      using inb by (simp add: ipv4_ranges_count_def) linarith
    have step: "IsReservedIPv4_loop a left right =
      (if start range \<le> a \<and> a \<le> end_ip range then Inr 1
       else if a < start range then IsReservedIPv4_loop a left (mid - 1)
       else IsReservedIPv4_loop a (mid + 1) right)"
      by (subst IsReservedIPv4_loop.simps, unfold Let_def mid_def [symmetric] range_def [symmetric])
         (use True inb in simp)
    consider (hit) "in_range range a" | (below) "a < start range" | (above) "end_ip range < a"
      unfolding in_range_def by (meson not_le)
    then show ?thesis
    proof cases
      case hit
      then show ?thesis using step mid by (auto simp: range_def in_range_def)
    next
      case below
      have no: "\<not> in_range (ipv4_reserved_ranges ! nat i) a" if "mid \<le> i" "i \<le> right" for i
      proof (cases "i = mid")
        case True
        then show ?thesis using below by (auto simp: in_range_def range_def dest: leD)
      next
        case False
        then have "nat mid < nat i" "nat i < length ipv4_reserved_ranges"
          using that mid "1.prems" by (auto simp: ipv4_ranges_count_def)
        from ipv4_entry_end_less_start [OF this] ipv4_entry_start_le_end [OF rng] below
        have "a < start (ipv4_reserved_ranges ! nat i)"
          unfolding range_def by order
        then show ?thesis by (auto simp: in_range_def dest: leD)
      qed
      have "IsReservedIPv4_loop a left right = IsReservedIPv4_loop a left (mid - 1)"
        using step below not_le [THEN iffD2, OF below] by simp
      also have "\<dots> = Inr (if \<exists>i. left \<le> i \<and> i \<le> mid - 1 \<and> in_range (ipv4_reserved_ranges ! nat i) a
          then 1 else 0)"
        using "1.IH"(1) [OF True mid_def inb range_def] below not_le [THEN iffD2, OF below] "1.prems" mid
        by (simp add: in_range_def range_def)
      also have "(\<exists>i. left \<le> i \<and> i \<le> mid - 1 \<and> in_range (ipv4_reserved_ranges ! nat i) a)
          \<longleftrightarrow> (\<exists>i. left \<le> i \<and> i \<le> right \<and> in_range (ipv4_reserved_ranges ! nat i) a)"
        (is "?L \<longleftrightarrow> ?R")
      proof
        assume ?L
        then obtain i where "left \<le> i" "i \<le> mid - 1" "in_range (ipv4_reserved_ranges ! nat i) a"
          by blast
        with mid have "left \<le> i \<and> i \<le> right \<and> in_range (ipv4_reserved_ranges ! nat i) a"
          by simp
        then show ?R by blast
      next
        assume ?R
        then obtain i where i: "left \<le> i" "i \<le> right" "in_range (ipv4_reserved_ranges ! nat i) a"
          by blast
        with no have "\<not> mid \<le> i" by blast
        with i have "left \<le> i \<and> i \<le> mid - 1 \<and> in_range (ipv4_reserved_ranges ! nat i) a"
          by simp
        then show ?L by blast
      qed
      finally show ?thesis .
    next
      case above
      have nlt: "\<not> a < start range"
        using above ipv4_entry_start_le_end [OF rng] by (simp add: range_def)
      have no: "\<not> in_range (ipv4_reserved_ranges ! nat i) a" if "left \<le> i" "i \<le> mid" for i
      proof (cases "i = mid")
        case True
        then show ?thesis using above by (auto simp: in_range_def range_def dest: leD)
      next
        case False
        then have "nat i < nat mid"
          using that "1.prems" by auto
        from ipv4_entry_end_less_start [OF this rng] ipv4_entry_start_le_end [OF rng] above
        have "end_ip (ipv4_reserved_ranges ! nat i) < a"
          unfolding range_def by order
        then show ?thesis by (auto simp: in_range_def dest: leD)
      qed
      have "IsReservedIPv4_loop a left right = IsReservedIPv4_loop a (mid + 1) right"
        using step above nlt not_le [THEN iffD2, OF above] by simp
      also have "\<dots> = Inr (if \<exists>i. mid + 1 \<le> i \<and> i \<le> right \<and> in_range (ipv4_reserved_ranges ! nat i) a
          then 1 else 0)"
        using "1.IH"(2) [OF True mid_def inb range_def] above nlt not_le [THEN iffD2, OF above] "1.prems" mid
        by (simp add: in_range_def range_def)
      also have "(\<exists>i. mid + 1 \<le> i \<and> i \<le> right \<and> in_range (ipv4_reserved_ranges ! nat i) a)
          \<longleftrightarrow> (\<exists>i. left \<le> i \<and> i \<le> right \<and> in_range (ipv4_reserved_ranges ! nat i) a)"
        (is "?L \<longleftrightarrow> ?R")
      proof
        assume ?L
        then obtain i where "mid + 1 \<le> i" "i \<le> right" "in_range (ipv4_reserved_ranges ! nat i) a"
          by blast
        with mid have "left \<le> i \<and> i \<le> right \<and> in_range (ipv4_reserved_ranges ! nat i) a"
          by simp
        then show ?R by blast
      next
        assume ?R
        then obtain i where i: "left \<le> i" "i \<le> right" "in_range (ipv4_reserved_ranges ! nat i) a"
          by blast
        with no have "\<not> i \<le> mid" by blast
        with i have "mid + 1 \<le> i \<and> i \<le> right \<and> in_range (ipv4_reserved_ranges ! nat i) a"
          by simp
        then show ?L by blast
      qed
      finally show ?thesis .
    qed
  qed
qed

lemma IsReservedIPv4_char:
  "IsReservedIPv4 a = Inr (if \<exists>r \<in> set ipv4_reserved_ranges. in_range r a then 1 else 0)"
proof -
  have "(\<exists>i. 0 \<le> i \<and> i \<le> ipv4_ranges_count - 1 \<and> in_range (ipv4_reserved_ranges ! nat i) a)
      \<longleftrightarrow> (\<exists>r \<in> set ipv4_reserved_ranges. in_range r a)"
    (is "?L \<longleftrightarrow> ?R")
  proof
    assume ?L
    then obtain i where "0 \<le> i" "i < ipv4_ranges_count" "in_range (ipv4_reserved_ranges ! nat i) a"
      by auto
    moreover from this have "nat i < length ipv4_reserved_ranges"
      by (simp add: ipv4_ranges_count_def)
    ultimately show ?R
      using nth_mem by blast
  next
    assume ?R
    then obtain j where j: "j < length ipv4_reserved_ranges" "in_range (ipv4_reserved_ranges ! j) a"
      by (auto simp: in_set_conv_nth)
    then have "0 \<le> int j \<and> int j \<le> ipv4_ranges_count - 1 \<and>
        in_range (ipv4_reserved_ranges ! nat (int j)) a"
      by (simp add: ipv4_ranges_count_def)
    then show ?L by blast
  qed
  moreover have "IsReservedIPv4 a =
      Inr (if \<exists>i. 0 \<le> i \<and> i \<le> ipv4_ranges_count - 1 \<and> in_range (ipv4_reserved_ranges ! nat i) a
           then 1 else 0)"
    unfolding IsReservedIPv4_def by (rule IsReservedIPv4_loop_correct) simp_all
  ultimately show ?thesis by simp
qed

lemma linear_scan_char:
  "linear_scan rs a = (if \<exists>r \<in> set rs. in_range r a then 1 else 0)"
  by (induction rs) simp_all

subsection \<open>Claims about the IPv4 classifier\<close>

text \<open>
  Claim C1. The table holds the nine listed ranges, and for every entry of the table
  and every address \<open>a\<close> with \<open>start \<le> a \<le> end\<close> of that entry,
  \<open>IsReservedIPv4 a\<close> returns 1.
\<close>

theorem IsReservedIPv4_inside_table_range:
  "map (\<lambda>r. (start r, end_ip r)) ipv4_reserved_ranges =
     [(0x00000000, 0x00FFFFFF), (0x64400000, 0x647FFFFF), (0xC0000000, 0xC0000007),
      (0xC0000200, 0xC00002FF), (0xC0586300, 0xC05863FF), (0xC6120000, 0xC613FFFF),
      (0xC6336400, 0xC63364FF), (0xCB007100, 0xCB0071FF), (0xE0000000, 0xFFFFFFFF)] \<and>
   (\<forall>r \<in> set ipv4_reserved_ranges. \<forall>a.
      start r \<le> a \<and> a \<le> end_ip r \<longrightarrow> IsReservedIPv4 a = Inr 1)"
proof (intro conjI ballI allI impI)
  show "map (\<lambda>r. (start r, end_ip r)) ipv4_reserved_ranges =
     [(0x00000000, 0x00FFFFFF), (0x64400000, 0x647FFFFF), (0xC0000000, 0xC0000007),
      (0xC0000200, 0xC00002FF), (0xC0586300, 0xC05863FF), (0xC6120000, 0xC613FFFF),
      (0xC6336400, 0xC63364FF), (0xCB007100, 0xCB0071FF), (0xE0000000, 0xFFFFFFFF)]"
    by (simp add: ipv4_reserved_ranges_def)
next
  fix r a
  assume "r \<in> set ipv4_reserved_ranges" and "start r \<le> a \<and> a \<le> end_ip r"
  then have "\<exists>r \<in> set ipv4_reserved_ranges. in_range r a"
    unfolding in_range_def by blast
  then show "IsReservedIPv4 a = Inr 1"
    by (simp add: IsReservedIPv4_char)
qed

theorem IsReservedIPv4_inside_table_range_witness:
  "\<lparr>start = 0xC0000200, end_ip = 0xC00002FF\<rparr> \<in> set ipv4_reserved_ranges \<and>
   (0xC0000200 :: 32 word) \<le> 0xC0000210 \<and> (0xC0000210 :: 32 word) \<le> 0xC00002FF \<and>
   IsReservedIPv4 0xC0000210 = Inr 1"
proof -
  have m: "\<lparr>start = 0xC0000200, end_ip = 0xC00002FF\<rparr> \<in> set ipv4_reserved_ranges"
    by (simp add: ipv4_reserved_ranges_def)
  have b: "(0xC0000200 :: 32 word) \<le> 0xC0000210" "(0xC0000210 :: 32 word) \<le> 0xC00002FF"
    by simp_all
  from IsReservedIPv4_inside_table_range m b
  have "IsReservedIPv4 0xC0000210 = Inr 1"
    by fastforce
  with m b show ?thesis by simp
qed

text \<open>
  Claim C2. For every address that lies in none of the ranges of the table,
  \<open>IsReservedIPv4\<close> returns 0; in particular for every address strictly between the
  \<open>end\<close> of one entry and the \<open>start\<close> of the next. No address lies below the
  \<open>start\<close> of the first entry, which is 0, or above the \<open>end\<close> of the last, which is
  \<open>0xFFFFFFFF\<close>.
\<close>

theorem IsReservedIPv4_outside_table_ranges:
  "(\<forall>a. (\<forall>r \<in> set ipv4_reserved_ranges. \<not> (start r \<le> a \<and> a \<le> end_ip r))
      \<longrightarrow> IsReservedIPv4 a = Inr 0) \<and>
   (\<forall>i a. Suc i < length ipv4_reserved_ranges \<and>
      end_ip (ipv4_reserved_ranges ! i) < a \<and> a < start (ipv4_reserved_ranges ! Suc i)
      \<longrightarrow> IsReservedIPv4 a = Inr 0) \<and>
   start (hd ipv4_reserved_ranges) = 0 \<and>
   end_ip (last ipv4_reserved_ranges) = 0xFFFFFFFF"
proof (intro conjI allI impI)
  fix a
  assume "\<forall>r \<in> set ipv4_reserved_ranges. \<not> (start r \<le> a \<and> a \<le> end_ip r)"
  then show "IsReservedIPv4 a = Inr 0"
    by (simp add: IsReservedIPv4_char in_range_def)
next
  fix i a
  assume "Suc i < length ipv4_reserved_ranges \<and>
      end_ip (ipv4_reserved_ranges ! i) < a \<and> a < start (ipv4_reserved_ranges ! Suc i)"
  then have h: "Suc i < length ipv4_reserved_ranges"
    and above: "end_ip (ipv4_reserved_ranges ! i) < a"
    and below: "a < start (ipv4_reserved_ranges ! Suc i)"
    by simp_all
  have "\<not> in_range (ipv4_reserved_ranges ! j) a" if j: "j < length ipv4_reserved_ranges" for j
  proof (cases "j \<le> i")
    case True
    have "end_ip (ipv4_reserved_ranges ! j) \<le> end_ip (ipv4_reserved_ranges ! i)"
    proof (cases "j = i")
      case False
      with True h have "j < i" "i < length ipv4_reserved_ranges" by simp_all
      from ipv4_entry_end_less_start [OF this] ipv4_entry_start_le_end [OF this(2)]
      show ?thesis by order
    qed simp
    with above have "end_ip (ipv4_reserved_ranges ! j) < a" by order
    then show ?thesis by (auto simp: in_range_def dest: leD)
  next
    case False
    have "start (ipv4_reserved_ranges ! Suc i) \<le> start (ipv4_reserved_ranges ! j)"
    proof (cases "j = Suc i")
      case ne: False
      with False have "Suc i < j" by simp
      from ipv4_entry_end_less_start [OF this j] ipv4_entry_start_le_end [OF h]
      show ?thesis by order
    qed simp
    with below have "a < start (ipv4_reserved_ranges ! j)" by order
    then show ?thesis by (auto simp: in_range_def dest: leD)
  qed
  then have "\<not> (\<exists>r \<in> set ipv4_reserved_ranges. in_range r a)"
    by (auto simp: in_set_conv_nth)
  then show "IsReservedIPv4 a = Inr 0"
    by (simp add: IsReservedIPv4_char)
next
  show "start (hd ipv4_reserved_ranges) = 0"
    by (simp add: ipv4_reserved_ranges_def)
next
  show "end_ip (last ipv4_reserved_ranges) = 0xFFFFFFFF"
    by (simp add: ipv4_reserved_ranges_def)
qed

theorem IsReservedIPv4_outside_table_ranges_witness:
  "\<not> (\<exists>r \<in> set ipv4_reserved_ranges. start r \<le> 0x01000000 \<and> 0x01000000 \<le> end_ip r) \<and>
   IsReservedIPv4 0x01000000 = Inr 0 \<and>
   Suc 7 < length ipv4_reserved_ranges \<and>
   end_ip (ipv4_reserved_ranges ! 7) < 0xDFFFFFFF \<and>
   0xDFFFFFFF < start (ipv4_reserved_ranges ! Suc 7) \<and>
   IsReservedIPv4 0xDFFFFFFF = Inr 0"
proof -
  have h1: "\<forall>r \<in> set ipv4_reserved_ranges. \<not> (start r \<le> 0x01000000 \<and> 0x01000000 \<le> end_ip r)"
    by (simp add: ipv4_reserved_ranges_def)
  have h2: "Suc 7 < length ipv4_reserved_ranges \<and>
      end_ip (ipv4_reserved_ranges ! 7) < 0xDFFFFFFF \<and>
      0xDFFFFFFF < start (ipv4_reserved_ranges ! Suc 7)"
    by (simp add: ipv4_reserved_ranges_def)
  from IsReservedIPv4_outside_table_ranges h1
  have r1: "IsReservedIPv4 0x01000000 = Inr 0" by blast
  from IsReservedIPv4_outside_table_ranges h2
  have r2: "IsReservedIPv4 0xDFFFFFFF = Inr 0" by blast
  from h1 h2 r1 r2 show ?thesis by blast
qed

text \<open>
  Claim C5. The table satisfies the invariant of the binary search: every entry has
  \<open>start \<le> end\<close>, the entries are sorted strictly ascending by \<open>start\<close>, and no two
  entries' closed intervals overlap.
\<close>

theorem ipv4_reserved_ranges_invariant:
  "(\<forall>r \<in> set ipv4_reserved_ranges. start r \<le> end_ip r) \<and>
   sorted_wrt (\<lambda>r s. start r < start s) ipv4_reserved_ranges \<and>
   (\<forall>i < length ipv4_reserved_ranges. \<forall>j < length ipv4_reserved_ranges. i \<noteq> j \<longrightarrow>
      {start (ipv4_reserved_ranges ! i) .. end_ip (ipv4_reserved_ranges ! i)} \<inter>
      {start (ipv4_reserved_ranges ! j) .. end_ip (ipv4_reserved_ranges ! j)} = {})"
proof (intro conjI allI impI)
  show "\<forall>r \<in> set ipv4_reserved_ranges. start r \<le> end_ip r"
    using ipv4_entries_wf by (simp add: list_all_iff)
next
  show "sorted_wrt (\<lambda>r s. start r < start s) ipv4_reserved_ranges"
    by (rule ipv4_entries_ascending)
next
  fix i j
  assume i: "i < length ipv4_reserved_ranges" and j: "j < length ipv4_reserved_ranges"
    and "i \<noteq> j"
  have apart: "{start (ipv4_reserved_ranges ! k) .. end_ip (ipv4_reserved_ranges ! k)} \<inter>
      {start (ipv4_reserved_ranges ! l) .. end_ip (ipv4_reserved_ranges ! l)} = {}"
    if "k < l" "l < length ipv4_reserved_ranges" for k l
  proof -
    have "\<not> (x \<le> end_ip (ipv4_reserved_ranges ! k) \<and> start (ipv4_reserved_ranges ! l) \<le> x)" for x
      using ipv4_entry_end_less_start [OF that] by (auto dest: order_trans leD)
    then show ?thesis by auto
  qed
  from \<open>i \<noteq> j\<close> consider "i < j" | "j < i" by arith
  then show "{start (ipv4_reserved_ranges ! i) .. end_ip (ipv4_reserved_ranges ! i)} \<inter>
      {start (ipv4_reserved_ranges ! j) .. end_ip (ipv4_reserved_ranges ! j)} = {}"
  proof cases
    case 1
    then show ?thesis by (rule apart [OF _ j])
  next
    case 2
    then show ?thesis by (subst Int_commute) (rule apart [OF _ i])
  qed
qed

theorem ipv4_reserved_ranges_invariant_witness:
  "ipv4_reserved_ranges ! 2 \<in> set ipv4_reserved_ranges \<and>
   start (ipv4_reserved_ranges ! 2) \<le> end_ip (ipv4_reserved_ranges ! 2) \<and>
   (2 :: nat) < length ipv4_reserved_ranges \<and> (3 :: nat) < length ipv4_reserved_ranges \<and>
   (2 :: nat) \<noteq> 3 \<and>
   {start (ipv4_reserved_ranges ! 2) .. end_ip (ipv4_reserved_ranges ! 2)} \<inter>
   {start (ipv4_reserved_ranges ! 3) .. end_ip (ipv4_reserved_ranges ! 3)} = {}"
proof -
  have len: "(2 :: nat) < length ipv4_reserved_ranges" "(3 :: nat) < length ipv4_reserved_ranges"
    by (simp_all add: ipv4_reserved_ranges_def)
  then have m: "ipv4_reserved_ranges ! 2 \<in> set ipv4_reserved_ranges"
    by simp
  have ne: "(2 :: nat) \<noteq> 3" by simp
  from ipv4_reserved_ranges_invariant m
  have "start (ipv4_reserved_ranges ! 2) \<le> end_ip (ipv4_reserved_ranges ! 2)"
    by blast
  moreover from ipv4_reserved_ranges_invariant len ne
  have "{start (ipv4_reserved_ranges ! 2) .. end_ip (ipv4_reserved_ranges ! 2)} \<inter>
      {start (ipv4_reserved_ranges ! 3) .. end_ip (ipv4_reserved_ranges ! 3)} = {}"
    by blast
  ultimately show ?thesis using len m ne by blast
qed

text \<open>
  Claim C8. For every 32-bit input the binary search returns what the naive linear
  scan of the nine ranges returns.
\<close>

theorem IsReservedIPv4_eq_linear_scan:
  "IsReservedIPv4 a = Inr (linear_scan ipv4_reserved_ranges a)"
  by (simp only: IsReservedIPv4_char linear_scan_char)

theorem IsReservedIPv4_eq_linear_scan_witness:
  "linear_scan ipv4_reserved_ranges 0xC6336401 = 1 \<and>
   IsReservedIPv4 0xC6336401 = Inr 1 \<and>
   linear_scan ipv4_reserved_ranges 0xC6336500 = 0 \<and>
   IsReservedIPv4 0xC6336500 = Inr 0"
proof -
  have l: "linear_scan ipv4_reserved_ranges 0xC6336401 = 1"
    "linear_scan ipv4_reserved_ranges 0xC6336500 = 0"
    by (simp_all add: ipv4_reserved_ranges_def in_range_def)
  with IsReservedIPv4_eq_linear_scan [of "0xC6336401"]
    IsReservedIPv4_eq_linear_scan [of "0xC6336500"]
  show ?thesis by simp
qed

section \<open>The IPv6 classifier\<close>

subsection \<open>The loop over the complete bytes\<close>

lemma ipv6_matches_prefix_loop_correct:
  "n \<le> length ip \<Longrightarrow> n \<le> length (prefix p) \<Longrightarrow>
   ipv6_matches_prefix_loop ip p n i = Inr (\<forall>j. i \<le> j \<and> j < n \<longrightarrow> ip ! j = prefix p ! j)"
proof (induction ip p n i rule: ipv6_matches_prefix_loop.induct)
  case (1 ip p n i)
  show ?case
  proof (cases "i < n")
    case False
    then show ?thesis by (subst ipv6_matches_prefix_loop.simps) auto
  next
    case True
    then have rd: "byte_at ip i = Inr (ip ! i)" "byte_at (prefix p) i = Inr (prefix p ! i)"
      using "1.prems" by (simp_all add: byte_at_def)
    show ?thesis
    proof (cases "ip ! i = prefix p ! i")
      case False
      then have "ipv6_matches_prefix_loop ip p n i = Inr False"
        using True rd by (subst ipv6_matches_prefix_loop.simps) simp
      moreover have "\<not> (\<forall>j. i \<le> j \<and> j < n \<longrightarrow> ip ! j = prefix p ! j)"
        using False True by auto
      ultimately show ?thesis by simp
    next
      case eq: True
      have "ipv6_matches_prefix_loop ip p n i = ipv6_matches_prefix_loop ip p n (i + 1)"
        using True rd eq by (subst ipv6_matches_prefix_loop.simps) simp
      also have "\<dots> = Inr (\<forall>j. i + 1 \<le> j \<and> j < n \<longrightarrow> ip ! j = prefix p ! j)"
        using "1.IH" [OF True rd(1) rd(2)] eq "1.prems" by simp
      also have "(\<forall>j. i + 1 \<le> j \<and> j < n \<longrightarrow> ip ! j = prefix p ! j)
          \<longleftrightarrow> (\<forall>j. i \<le> j \<and> j < n \<longrightarrow> ip ! j = prefix p ! j)"
        using eq by (metis Suc_eq_plus1 Suc_leI le_neq_implies_less Suc_leD)
      finally show ?thesis .
    qed
  qed
qed

lemma take_eq_iff_nth:
  "n \<le> length xs \<Longrightarrow> n \<le> length ys \<Longrightarrow>
   take n xs = take n ys \<longleftrightarrow> (\<forall>j. 0 \<le> j \<and> j < n \<longrightarrow> xs ! j = ys ! j)"
  by (simp add: list_eq_iff_nth_eq)

subsection \<open>One prefix\<close>

lemma mask_conv: "(word_of_int (push_bit k 0xFF) :: 8 word) = push_bit k 0xFF"
  by (metis push_bit_of_int word_of_int_numeral)

lemma ipv6_matches_prefix_correct:
  assumes "length ip = 16" and "prefix_wf p"
  shows "ipv6_matches_prefix ip p = Inr (if prefix_match ip p then 1 else 0)"
proof -
  define n where "n = unat (prefix_len p) div 8"
  define r where "r = unat (prefix_len p) mod 8"
  have n: "n \<le> 16" and nr: "0 < r \<Longrightarrow> n < 16"
    using assms(2) unfolding n_def r_def prefix_wf_def by arith+
  have len: "n \<le> length ip" "n \<le> length (prefix p)"
    using n assms by (simp_all add: prefix_wf_def)
  have loop: "ipv6_matches_prefix_loop ip p n 0 = Inr (take n ip = take n (prefix p))"
    using ipv6_matches_prefix_loop_correct [OF len, of 0] take_eq_iff_nth [OF len] by simp
  show ?thesis
  proof (cases "0 < r")
    case False
    then show ?thesis
      using loop
      by (simp add: ipv6_matches_prefix_def prefix_match_def Let_def
          flip: n_def r_def)
  next
    case True
    then have rd: "byte_at ip n = Inr (ip ! n)" "byte_at (prefix p) n = Inr (prefix p ! n)"
      using nr assms by (simp_all add: byte_at_def prefix_wf_def)
    show ?thesis
      using loop True rd
      by (simp add: ipv6_matches_prefix_def prefix_match_def Let_def mask_conv
          flip: n_def r_def)
  qed
qed

lemma ipv6_table_wf: "list_all prefix_wf ipv6_reserved_prefixes"
  by (simp add: ipv6_reserved_prefixes_def prefix_wf_def)

lemma ipv6_entry_wf:
  "i < ipv6_prefixes_count \<Longrightarrow> prefix_wf (ipv6_reserved_prefixes ! i)"
  using ipv6_table_wf by (simp add: list_all_length ipv6_prefixes_count_def)

subsection \<open>The scan of the table\<close>

lemma IsReservedIPv6_loop_correct:
  "length ip = 16 \<Longrightarrow>
   IsReservedIPv6_loop ip i =
    Inr (if \<exists>j. i \<le> j \<and> j < ipv6_prefixes_count \<and> prefix_match ip (ipv6_reserved_prefixes ! j)
         then 1 else 0)"
proof (induction ip i rule: IsReservedIPv6_loop.induct)
  case (1 ip i)
  show ?case
  proof (cases "i < ipv6_prefixes_count")
    case False
    then show ?thesis by (subst IsReservedIPv6_loop.simps) auto
  next
    case True
    note m = ipv6_matches_prefix_correct [OF "1.prems" ipv6_entry_wf [OF True]]
    show ?thesis
    proof (cases "prefix_match ip (ipv6_reserved_prefixes ! i)")
      case hit: True
      then have "IsReservedIPv6_loop ip i = Inr 1"
        using True m by (subst IsReservedIPv6_loop.simps) simp
      then show ?thesis using hit True by auto
    next
      case miss: False
      then have "IsReservedIPv6_loop ip i = IsReservedIPv6_loop ip (i + 1)"
        using True m by (subst IsReservedIPv6_loop.simps) simp
      also have "\<dots> = Inr (if \<exists>j. i + 1 \<le> j \<and> j < ipv6_prefixes_count \<and>
              prefix_match ip (ipv6_reserved_prefixes ! j) then 1 else 0)"
        using "1.IH" [OF True, of 0] m miss "1.prems" by simp
      also have "(\<exists>j. i + 1 \<le> j \<and> j < ipv6_prefixes_count \<and>
              prefix_match ip (ipv6_reserved_prefixes ! j))
          \<longleftrightarrow> (\<exists>j. i \<le> j \<and> j < ipv6_prefixes_count \<and>
              prefix_match ip (ipv6_reserved_prefixes ! j))"
        using miss by (metis Suc_eq_plus1 Suc_leI le_neq_implies_less Suc_leD)
      finally show ?thesis .
    qed
  qed
qed

lemma IsReservedIPv6_char:
  assumes "length ip = 16"
  shows "IsReservedIPv6 (Some ip) =
    Inr (if \<exists>p \<in> set ipv6_reserved_prefixes. prefix_match ip p then 1 else 0)"
proof -
  have "(\<exists>j. 0 \<le> j \<and> j < ipv6_prefixes_count \<and> prefix_match ip (ipv6_reserved_prefixes ! j))
      \<longleftrightarrow> (\<exists>p \<in> set ipv6_reserved_prefixes. prefix_match ip p)"
    unfolding ipv6_prefixes_count_def by (metis in_set_conv_nth le0)
  then show ?thesis
    using IsReservedIPv6_loop_correct [OF assms, of 0] by (simp add: IsReservedIPv6_def)
qed

subsection \<open>A prefix match is agreement on the leading bits\<close>

lemma byte_eq_iff_bits:
  "a = b \<longleftrightarrow> (\<forall>t<8. bit a (7 - t) = bit b (7 - t))" for a b :: "8 word"
proof
  assume r: "\<forall>t<8. bit a (7 - t) = bit b (7 - t)"
  show "a = b"
  proof (rule bit_word_eqI)
    fix n assume "n < LENGTH(8)"
    then have "7 - n < 8" "7 - (7 - n) = n" by simp_all
    with r show "bit a n = bit b n" by metis
  qed
qed simp

lemma bit_FF_shifted:
  "bit (push_bit k 0xFF :: 8 word) n \<longleftrightarrow> k \<le> n \<and> n < 8"
proof -
  have e: "(0xFF :: 8 word) = - 1" by simp
  show ?thesis unfolding e by (auto simp: bit_simps dest: bit_imp_le_length)
qed

lemma masked_eq_iff_bits:
  "r < 8 \<Longrightarrow> (a AND push_bit (8 - r) 0xFF = b AND push_bit (8 - r) 0xFF)
    \<longleftrightarrow> (\<forall>t<r. bit a (7 - t) = bit b (7 - t))" for a b :: "8 word"
proof
  assume r: "r < 8" and eq: "a AND push_bit (8 - r) 0xFF = b AND push_bit (8 - r) 0xFF"
  show "\<forall>t<r. bit a (7 - t) = bit b (7 - t)"
  proof (intro allI impI)
    fix t assume "t < r"
    then have "8 - r \<le> 7 - t \<and> 7 - t < 8"
      using r by arith
    then have m: "bit (push_bit (8 - r) 0xFF :: 8 word) (7 - t)"
      by (simp only: bit_FF_shifted)
    from eq have "bit (a AND push_bit (8 - r) 0xFF) (7 - t) = bit (b AND push_bit (8 - r) 0xFF) (7 - t)"
      by simp
    with m show "bit a (7 - t) = bit b (7 - t)"
      by (simp add: bit_and_iff)
  qed
next
  assume r: "r < 8" and bits: "\<forall>t<r. bit a (7 - t) = bit b (7 - t)"
  show "a AND push_bit (8 - r) 0xFF = b AND push_bit (8 - r) 0xFF"
  proof (rule bit_word_eqI)
    fix n assume n: "n < LENGTH(8)"
    show "bit (a AND push_bit (8 - r) 0xFF) n = bit (b AND push_bit (8 - r) 0xFF) n"
    proof (cases "8 - r \<le> n")
      case True
      with n have "7 - n < r" "7 - (7 - n) = n" by simp_all
      with bits have "bit a n = bit b n" by metis
      then show ?thesis by (simp add: bit_and_iff)
    next
      case False
      then show ?thesis by (simp add: bit_and_iff bit_FF_shifted)
    qed
  qed
qed


lemma addr_bit_split: "t < 8 \<Longrightarrow> addr_bit ip (8 * j + t) = bit (ip ! j) (7 - t)"
  by (simp add: addr_bit_def)

lemma take_eq_iff_bits:
  assumes "n \<le> length ip" and "n \<le> length q"
  shows "take n ip = take n q \<longleftrightarrow> (\<forall>k<8 * n. addr_bit ip k = addr_bit q k)"
proof
  assume "take n ip = take n q"
  then have eq: "\<And>j. j < n \<Longrightarrow> ip ! j = q ! j"
    using take_eq_iff_nth [OF assms] by simp
  show "\<forall>k<8 * n. addr_bit ip k = addr_bit q k"
  proof (intro allI impI)
    fix k assume "k < 8 * n"
    then have "k div 8 < n" by arith
    then show "addr_bit ip k = addr_bit q k"
      by (simp add: addr_bit_def eq)
  qed
next
  assume bits: "\<forall>k<8 * n. addr_bit ip k = addr_bit q k"
  have "ip ! j = q ! j" if "j < n" for j
  proof -
    have "bit (ip ! j) (7 - t) = bit (q ! j) (7 - t)" if "t < 8" for t
    proof -
      from \<open>j < n\<close> \<open>t < 8\<close> have "8 * j + t < 8 * n" by arith
      with bits have "addr_bit ip (8 * j + t) = addr_bit q (8 * j + t)" by blast
      then show ?thesis by (simp only: addr_bit_split [OF \<open>t < 8\<close>])
    qed
    then show ?thesis by (simp only: byte_eq_iff_bits [of "ip ! j"]) blast
  qed
  then show "take n ip = take n q"
    using take_eq_iff_nth [OF assms] by simp
qed

lemma prefix_match_iff_leading_bits:
  assumes "length ip = 16" and "prefix_wf p"
  shows "prefix_match ip p \<longleftrightarrow> leading_bits_agree (unat (prefix_len p)) ip (prefix p)"
proof -
  define n where "n = unat (prefix_len p) div 8"
  define r where "r = unat (prefix_len p) mod 8"
  define q where "q = prefix p"
  have L: "unat (prefix_len p) = 8 * n + r" and r: "r < 8"
    by (simp_all add: n_def r_def)
  have "n \<le> 16"
    using assms(2) unfolding n_def prefix_wf_def by arith
  then have len: "n \<le> length ip" "n \<le> length q"
    using assms unfolding q_def prefix_wf_def by simp_all
  have split: "leading_bits_agree (8 * n + r) ip q \<longleftrightarrow>
      (\<forall>k<8 * n. addr_bit ip k = addr_bit q k) \<and>
      (\<forall>t<r. addr_bit ip (8 * n + t) = addr_bit q (8 * n + t))"
    (is "?A \<longleftrightarrow> ?B \<and> ?C")
  proof
    assume ?A
    then show "?B \<and> ?C" by (simp add: leading_bits_agree_def)
  next
    assume bc: "?B \<and> ?C"
    have "addr_bit ip k = addr_bit q k" if "k < 8 * n + r" for k
    proof (cases "k < 8 * n")
      case True
      with bc show ?thesis by blast
    next
      case False
      with that have "k - 8 * n < r" "8 * n + (k - 8 * n) = k" by simp_all
      with bc show ?thesis by metis
    qed
    then show ?A by (simp add: leading_bits_agree_def)
  qed
  have part: "(\<forall>t<r. addr_bit ip (8 * n + t) = addr_bit q (8 * n + t)) \<longleftrightarrow>
      (r = 0 \<or> (ip ! n) AND push_bit (8 - r) 0xFF = (q ! n) AND push_bit (8 - r) 0xFF)"
  proof (cases "r = 0")
    case True
    then show ?thesis by simp
  next
    case False
    have "(\<forall>t<r. addr_bit ip (8 * n + t) = addr_bit q (8 * n + t)) \<longleftrightarrow>
        (\<forall>t<r. bit (ip ! n) (7 - t) = bit (q ! n) (7 - t))"
      using r by (auto simp: addr_bit_split)
    then show ?thesis
      using False masked_eq_iff_bits [OF r, of "ip ! n" "q ! n"] by simp
  qed
  have "prefix_match ip p \<longleftrightarrow> take n ip = take n q \<and>
      (r = 0 \<or> (ip ! n) AND push_bit (8 - r) 0xFF = (q ! n) AND push_bit (8 - r) 0xFF)"
    by (simp add: prefix_match_def Let_def flip: n_def r_def q_def)
  also have "\<dots> \<longleftrightarrow> leading_bits_agree (8 * n + r) ip q"
    by (simp only: split part take_eq_iff_bits [OF len])
  finally show ?thesis
    by (simp only: L q_def)
qed

subsection \<open>Claims about the IPv6 classifier\<close>

text \<open>
  Claim C3. The table holds the eight listed prefixes, and for every non-null 16-byte
  address \<open>IsReservedIPv6\<close> returns 1 if and only if the address matches at least one
  entry of the table, and 0 otherwise. A match is what \<open>ipv6_matches_prefix\<close> computes
  for each entry: equality of the \<open>prefix_len / 8\<close> complete leading bytes and, when
  \<open>prefix_len\<close> is not a multiple of 8, equality of the next byte under the mask
  \<open>0xFF << (8 - remaining_bits)\<close>; that is agreement on the leading \<open>prefix_len\<close>
  bits.
\<close>

theorem IsReservedIPv6_iff_prefix_match:
  "map (\<lambda>p. (prefix p, unat (prefix_len p))) ipv6_reserved_prefixes =
     [(ipv6_of_groups [0, 0, 0, 0, 0, 0, 0, 0], 128),
      (ipv6_of_groups [0, 0, 0, 0, 0, 0xffff, 0, 0], 96),
      (ipv6_of_groups [0x100, 0, 0, 0, 0, 0, 0, 0], 64),
      (ipv6_of_groups [0x2001, 0, 0, 0, 0, 0, 0, 0], 32),
      (ipv6_of_groups [0x2001, 0x10, 0, 0, 0, 0, 0, 0], 28),
      (ipv6_of_groups [0x2001, 0x20, 0, 0, 0, 0, 0, 0], 28),
      (ipv6_of_groups [0x2001, 0xdb8, 0, 0, 0, 0, 0, 0], 32),
      (ipv6_of_groups [0xff00, 0, 0, 0, 0, 0, 0, 0], 8)] \<and>
   (\<forall>ip. length ip = 16 \<longrightarrow>
      IsReservedIPv6 (Some ip) =
        Inr (if \<exists>p \<in> set ipv6_reserved_prefixes. prefix_match ip p then 1 else 0) \<and>
      (\<forall>p \<in> set ipv6_reserved_prefixes.
         ipv6_matches_prefix ip p = Inr (if prefix_match ip p then 1 else 0) \<and>
         (prefix_match ip p \<longleftrightarrow> leading_bits_agree (unat (prefix_len p)) ip (prefix p))))"
proof (intro conjI allI impI ballI)
  show "map (\<lambda>p. (prefix p, unat (prefix_len p))) ipv6_reserved_prefixes =
     [(ipv6_of_groups [0, 0, 0, 0, 0, 0, 0, 0], 128),
      (ipv6_of_groups [0, 0, 0, 0, 0, 0xffff, 0, 0], 96),
      (ipv6_of_groups [0x100, 0, 0, 0, 0, 0, 0, 0], 64),
      (ipv6_of_groups [0x2001, 0, 0, 0, 0, 0, 0, 0], 32),
      (ipv6_of_groups [0x2001, 0x10, 0, 0, 0, 0, 0, 0], 28),
      (ipv6_of_groups [0x2001, 0x20, 0, 0, 0, 0, 0, 0], 28),
      (ipv6_of_groups [0x2001, 0xdb8, 0, 0, 0, 0, 0, 0], 32),
      (ipv6_of_groups [0xff00, 0, 0, 0, 0, 0, 0, 0], 8)]"
    by code_simp
next
  fix ip :: "8 word list"
  assume "length ip = 16"
  then show "IsReservedIPv6 (Some ip) =
      Inr (if \<exists>p \<in> set ipv6_reserved_prefixes. prefix_match ip p then 1 else 0)"
    by (rule IsReservedIPv6_char)
next
  fix ip :: "8 word list" and p
  assume len: "length ip = 16" and "p \<in> set ipv6_reserved_prefixes"
  then have wf: "prefix_wf p"
    using ipv6_table_wf by (simp add: list_all_iff)
  show "ipv6_matches_prefix ip p = Inr (if prefix_match ip p then 1 else 0)"
    by (rule ipv6_matches_prefix_correct [OF len wf])
  show "prefix_match ip p \<longleftrightarrow> leading_bits_agree (unat (prefix_len p)) ip (prefix p)"
    by (rule prefix_match_iff_leading_bits [OF len wf])
qed

theorem IsReservedIPv6_iff_prefix_match_witness:
  "length [0xFF, 0x02, 0, 0, 0, 0, 0, 0, 0, 0, 0, 0, 0, 0, 0, 0x01 :: 8 word] = 16 \<and>
   ipv6_reserved_prefixes ! 7 \<in> set ipv6_reserved_prefixes \<and>
   prefix_match [0xFF, 0x02, 0, 0, 0, 0, 0, 0, 0, 0, 0, 0, 0, 0, 0, 0x01] (ipv6_reserved_prefixes ! 7) \<and>
   leading_bits_agree (unat (prefix_len (ipv6_reserved_prefixes ! 7)))
     [0xFF, 0x02, 0, 0, 0, 0, 0, 0, 0, 0, 0, 0, 0, 0, 0, 0x01] (prefix (ipv6_reserved_prefixes ! 7)) \<and>
   ipv6_matches_prefix [0xFF, 0x02, 0, 0, 0, 0, 0, 0, 0, 0, 0, 0, 0, 0, 0, 0x01]
     (ipv6_reserved_prefixes ! 7) = Inr 1 \<and>
   IsReservedIPv6 (Some [0xFF, 0x02, 0, 0, 0, 0, 0, 0, 0, 0, 0, 0, 0, 0, 0, 0x01]) = Inr 1"
proof -
  let ?ip = "[0xFF, 0x02, 0, 0, 0, 0, 0, 0, 0, 0, 0, 0, 0, 0, 0, 0x01 :: 8 word]"
  have len: "length ?ip = 16" by simp
  have m: "prefix_match ?ip (ipv6_reserved_prefixes ! 7)"
    by (simp add: ipv6_reserved_prefixes_def prefix_match_def)
  have mem: "ipv6_reserved_prefixes ! 7 \<in> set ipv6_reserved_prefixes"
    by (simp add: ipv6_reserved_prefixes_def)
  from m mem have ex: "\<exists>p \<in> set ipv6_reserved_prefixes. prefix_match ?ip p"
    by blast
  from IsReservedIPv6_iff_prefix_match len
  have all: "IsReservedIPv6 (Some ?ip) =
        Inr (if \<exists>p \<in> set ipv6_reserved_prefixes. prefix_match ?ip p then 1 else 0) \<and>
      (\<forall>p \<in> set ipv6_reserved_prefixes.
         ipv6_matches_prefix ?ip p = Inr (if prefix_match ?ip p then 1 else 0) \<and>
         (prefix_match ?ip p \<longleftrightarrow> leading_bits_agree (unat (prefix_len p)) ?ip (prefix p)))"
    by blast
  from all ex have r: "IsReservedIPv6 (Some ?ip) = Inr 1"
    by simp
  from all mem have
    "ipv6_matches_prefix ?ip (ipv6_reserved_prefixes ! 7) =
        Inr (if prefix_match ?ip (ipv6_reserved_prefixes ! 7) then 1 else 0)"
    and "prefix_match ?ip (ipv6_reserved_prefixes ! 7) \<longleftrightarrow>
        leading_bits_agree (unat (prefix_len (ipv6_reserved_prefixes ! 7))) ?ip
          (prefix (ipv6_reserved_prefixes ! 7))"
    by blast+
  with m have "ipv6_matches_prefix ?ip (ipv6_reserved_prefixes ! 7) = Inr 1"
    and "leading_bits_agree (unat (prefix_len (ipv6_reserved_prefixes ! 7))) ?ip
          (prefix (ipv6_reserved_prefixes ! 7))"
    by simp_all
  with len mem m r show ?thesis by blast
qed

text \<open>
  Claim C4. \<open>IsReservedIPv6\<close> applied to a null address returns 0, "not reserved";
  it does not fault.
\<close>

theorem IsReservedIPv6_null: "IsReservedIPv6 None = Inr 0"
  by (simp add: IsReservedIPv6_def)

text \<open>
  Claim C7. Three test vectors: the all-zero address is reserved (\<open>::/128\<close>);
  \<open>2001:db8::1\<close> is reserved (the /32 documentation prefix, whatever the trailing
  bytes); \<open>2001:db9::\<close>, one bit away in byte 3, is not.
\<close>

theorem IsReservedIPv6_test_vectors:
  "IsReservedIPv6 (Some [0, 0, 0, 0, 0, 0, 0, 0, 0, 0, 0, 0, 0, 0, 0, 0]) = Inr 1 \<and>
   IsReservedIPv6 (Some [0x20, 0x01, 0x0d, 0xb8, 0, 0, 0, 0, 0, 0, 0, 0, 0, 0, 0, 0x01]) = Inr 1 \<and>
   IsReservedIPv6 (Some [0x20, 0x01, 0x0d, 0xb9, 0, 0, 0, 0, 0, 0, 0, 0, 0, 0, 0, 0]) = Inr 0"
  by code_simp

subsection \<open>The 28-bit prefix \<open>2001:10::/28\<close>\<close>

lemma groups_eval:
  "ipv6_of_groups [0x2001, 0x10, 0, 0, 0, 0, 0, 0] = [0x20,0x01,0x00,0x10,0,0,0,0,0,0,0,0,0,0,0,0]"
  "ipv6_of_groups [0x2001, 0x20, 0, 0, 0, 0, 0, 0] = [0x20,0x01,0x00,0x20,0,0,0,0,0,0,0,0,0,0,0,0]"
  "ipv6_of_groups [0x2001, 0, 0, 0, 0, 0, 0, 0] = [0x20,0x01,0,0,0,0,0,0,0,0,0,0,0,0,0,0]"
  by (simp_all add: ipv6_of_groups_def)

lemma leading_bits_agree_conflict:
  "leading_bits_agree m ip x \<Longrightarrow> leading_bits_agree n ip y \<Longrightarrow> k < m \<Longrightarrow> k < n \<Longrightarrow>
   addr_bit x k \<noteq> addr_bit y k \<Longrightarrow> False"
  by (auto simp: leading_bits_agree_def)


lemma reserved_iff_leading_bits:
  assumes "length ip = 16"
  shows "(\<exists>p \<in> set ipv6_reserved_prefixes. prefix_match ip p) \<longleftrightarrow>
    leading_bits_agree 128 ip [0,0,0,0,0,0,0,0,0,0,0,0,0,0,0,0] \<or>
    leading_bits_agree 96 ip [0,0,0,0,0,0,0,0,0,0,0xFF,0xFF,0,0,0,0] \<or>
    leading_bits_agree 64 ip [0x01,0x00,0,0,0,0,0,0,0,0,0,0,0,0,0,0] \<or>
    leading_bits_agree 32 ip [0x20,0x01,0,0,0,0,0,0,0,0,0,0,0,0,0,0] \<or>
    leading_bits_agree 28 ip [0x20,0x01,0x00,0x10,0,0,0,0,0,0,0,0,0,0,0,0] \<or>
    leading_bits_agree 28 ip [0x20,0x01,0x00,0x20,0,0,0,0,0,0,0,0,0,0,0,0] \<or>
    leading_bits_agree 32 ip [0x20,0x01,0x0d,0xb8,0,0,0,0,0,0,0,0,0,0,0,0] \<or>
    leading_bits_agree 8 ip [0xFF,0,0,0,0,0,0,0,0,0,0,0,0,0,0,0]"
  (is "?L \<longleftrightarrow> ?R")
proof -
  have "(\<exists>p \<in> set ipv6_reserved_prefixes. prefix_match ip p) \<longleftrightarrow>
      (\<exists>p \<in> set ipv6_reserved_prefixes. leading_bits_agree (unat (prefix_len p)) ip (prefix p))"
    using prefix_match_iff_leading_bits [OF assms] ipv6_table_wf
    by (auto simp: list_all_iff)
  also have "\<dots> \<longleftrightarrow> ?R"
    by (simp add: ipv6_reserved_prefixes_def)
  finally show ?thesis .
qed

text \<open>
  Claim C6 says that an address differing from the \<open>2001:0010\<close> pattern only in the
  high nibble of byte 3 is not reserved. \<open>2001:20::\<close> is such an address: it agrees
  with \<open>2001:10::\<close> on the 24 leading bits and on every byte after byte 3, differs in
  the seventh nibble, and is reserved, by the table's next entry \<open>2001:20::/28\<close>.
\<close>

theorem orchid_boundary_nibble_counterexample:
  "length [0x20, 0x01, 0x00, 0x20, 0, 0, 0, 0, 0, 0, 0, 0, 0, 0, 0, 0 :: 8 word] = 16 \<and>
   leading_bits_agree 24 [0x20, 0x01, 0x00, 0x20, 0, 0, 0, 0, 0, 0, 0, 0, 0, 0, 0, 0]
     (ipv6_of_groups [0x2001, 0x10, 0, 0, 0, 0, 0, 0]) \<and>
   \<not> leading_bits_agree 28 [0x20, 0x01, 0x00, 0x20, 0, 0, 0, 0, 0, 0, 0, 0, 0, 0, 0, 0]
     (ipv6_of_groups [0x2001, 0x10, 0, 0, 0, 0, 0, 0]) \<and>
   drop 4 [0x20, 0x01, 0x00, 0x20, 0, 0, 0, 0, 0, 0, 0, 0, 0, 0, 0, 0 :: 8 word] =
     drop 4 (ipv6_of_groups [0x2001, 0x10, 0, 0, 0, 0, 0, 0]) \<and>
   IsReservedIPv6 (Some [0x20, 0x01, 0x00, 0x20, 0, 0, 0, 0, 0, 0, 0, 0, 0, 0, 0, 0]) = Inr 1"
  by code_simp

text \<open>
  Claim C6, amended. Every 16-byte address whose 28 leading bits are those of
  \<open>2001:10::\<close> is reserved. An address that agrees with \<open>2001:10::\<close> on the 24 leading
  bits and differs from it in the high nibble of byte 3 does not match the entry
  \<open>2001:10::/28\<close>; it is reserved exactly when it matches one of the two neighbouring
  entries, \<open>2001:20::/28\<close> (the nibble is 2) or \<open>2001::/32\<close> (byte 3 is 0), and is
  not reserved otherwise.
\<close>

theorem IsReservedIPv6_orchid_prefix:
  assumes "length ip = 16"
  shows
    "(leading_bits_agree 28 ip (ipv6_of_groups [0x2001, 0x10, 0, 0, 0, 0, 0, 0]) \<longrightarrow>
        IsReservedIPv6 (Some ip) = Inr 1) \<and>
     (leading_bits_agree 24 ip (ipv6_of_groups [0x2001, 0x10, 0, 0, 0, 0, 0, 0]) \<and>
      \<not> leading_bits_agree 28 ip (ipv6_of_groups [0x2001, 0x10, 0, 0, 0, 0, 0, 0]) \<longrightarrow>
        ipv6_matches_prefix ip (ipv6_reserved_prefixes ! 4) = Inr 0 \<and>
        IsReservedIPv6 (Some ip) =
          Inr (if leading_bits_agree 28 ip (ipv6_of_groups [0x2001, 0x20, 0, 0, 0, 0, 0, 0]) \<or>
                  leading_bits_agree 32 ip (ipv6_of_groups [0x2001, 0, 0, 0, 0, 0, 0, 0])
               then 1 else 0))"
proof (intro conjI impI)
  assume "leading_bits_agree 28 ip (ipv6_of_groups [0x2001, 0x10, 0, 0, 0, 0, 0, 0])"
  then have "\<exists>p \<in> set ipv6_reserved_prefixes. prefix_match ip p"
    by (simp add: reserved_iff_leading_bits [OF assms] groups_eval)
  then show "IsReservedIPv6 (Some ip) = Inr 1"
    by (simp add: IsReservedIPv6_char [OF assms])
next
  assume h: "leading_bits_agree 24 ip (ipv6_of_groups [0x2001, 0x10, 0, 0, 0, 0, 0, 0]) \<and>
      \<not> leading_bits_agree 28 ip (ipv6_of_groups [0x2001, 0x10, 0, 0, 0, 0, 0, 0])"
  then have a24: "leading_bits_agree 24 ip [0x20,0x01,0x00,0x10,0,0,0,0,0,0,0,0,0,0,0,0]"
    and n28: "\<not> leading_bits_agree 28 ip [0x20,0x01,0x00,0x10,0,0,0,0,0,0,0,0,0,0,0,0]"
    by (simp_all add: groups_eval)
  have e4: "ipv6_reserved_prefixes ! 4 =
      \<lparr>prefix = [0x20,0x01,0x00,0x10,0,0,0,0,0,0,0,0,0,0,0,0], prefix_len = 28\<rparr>"
    by (simp add: ipv6_reserved_prefixes_def)
  have wf4: "prefix_wf (ipv6_reserved_prefixes ! 4)"
    by (simp add: e4 prefix_wf_def)
  have "\<not> prefix_match ip (ipv6_reserved_prefixes ! 4)"
    unfolding prefix_match_iff_leading_bits [OF assms wf4] using n28 by (simp add: e4)
  then show "ipv6_matches_prefix ip (ipv6_reserved_prefixes ! 4) = Inr 0"
    by (simp add: ipv6_matches_prefix_correct [OF assms wf4])
  have n0: "\<not> leading_bits_agree 128 ip [0,0,0,0,0,0,0,0,0,0,0,0,0,0,0,0]"
  proof
    assume "leading_bits_agree 128 ip [0,0,0,0,0,0,0,0,0,0,0,0,0,0,0,0]"
    from leading_bits_agree_conflict [OF a24 this, of 2]
    show False by (simp add: addr_bit_def)
  qed
  have n1: "\<not> leading_bits_agree 96 ip [0,0,0,0,0,0,0,0,0,0,0xFF,0xFF,0,0,0,0]"
  proof
    assume "leading_bits_agree 96 ip [0,0,0,0,0,0,0,0,0,0,0xFF,0xFF,0,0,0,0]"
    from leading_bits_agree_conflict [OF a24 this, of 2]
    show False by (simp add: addr_bit_def)
  qed
  have n2: "\<not> leading_bits_agree 64 ip [0x01,0x00,0,0,0,0,0,0,0,0,0,0,0,0,0,0]"
  proof
    assume "leading_bits_agree 64 ip [0x01,0x00,0,0,0,0,0,0,0,0,0,0,0,0,0,0]"
    from leading_bits_agree_conflict [OF a24 this, of 2]
    show False by (simp add: addr_bit_def)
  qed
  have n6: "\<not> leading_bits_agree 32 ip [0x20,0x01,0x0d,0xb8,0,0,0,0,0,0,0,0,0,0,0,0]"
  proof
    assume "leading_bits_agree 32 ip [0x20,0x01,0x0d,0xb8,0,0,0,0,0,0,0,0,0,0,0,0]"
    from leading_bits_agree_conflict [OF a24 this, of 20]
    show False by (simp add: addr_bit_def)
  qed
  have n7: "\<not> leading_bits_agree 8 ip [0xFF,0,0,0,0,0,0,0,0,0,0,0,0,0,0,0]"
  proof
    assume "leading_bits_agree 8 ip [0xFF,0,0,0,0,0,0,0,0,0,0,0,0,0,0,0]"
    from leading_bits_agree_conflict [OF a24 this, of 0]
    show False by (simp add: addr_bit_def)
  qed
  show "IsReservedIPv6 (Some ip) =
      Inr (if leading_bits_agree 28 ip (ipv6_of_groups [0x2001, 0x20, 0, 0, 0, 0, 0, 0]) \<or>
              leading_bits_agree 32 ip (ipv6_of_groups [0x2001, 0, 0, 0, 0, 0, 0, 0])
           then 1 else 0)"
    unfolding IsReservedIPv6_char [OF assms] reserved_iff_leading_bits [OF assms] groups_eval
    using n0 n1 n2 n6 n7 n28 by auto
qed


theorem IsReservedIPv6_orchid_prefix_witness:
  "length [0x20, 0x01, 0x00, 0x17, 0xAB, 0, 0, 0, 0, 0, 0, 0, 0, 0, 0, 0x05 :: 8 word] = 16 \<and>
   leading_bits_agree 28 [0x20, 0x01, 0x00, 0x17, 0xAB, 0, 0, 0, 0, 0, 0, 0, 0, 0, 0, 0x05]
     (ipv6_of_groups [0x2001, 0x10, 0, 0, 0, 0, 0, 0]) \<and>
   IsReservedIPv6 (Some [0x20, 0x01, 0x00, 0x17, 0xAB, 0, 0, 0, 0, 0, 0, 0, 0, 0, 0, 0x05]) = Inr 1 \<and>
   length [0x20, 0x01, 0x00, 0x30, 0, 0, 0, 0, 0, 0, 0, 0, 0, 0, 0, 0 :: 8 word] = 16 \<and>
   leading_bits_agree 24 [0x20, 0x01, 0x00, 0x30, 0, 0, 0, 0, 0, 0, 0, 0, 0, 0, 0, 0]
     (ipv6_of_groups [0x2001, 0x10, 0, 0, 0, 0, 0, 0]) \<and>
   \<not> leading_bits_agree 28 [0x20, 0x01, 0x00, 0x30, 0, 0, 0, 0, 0, 0, 0, 0, 0, 0, 0, 0]
     (ipv6_of_groups [0x2001, 0x10, 0, 0, 0, 0, 0, 0]) \<and>
   ipv6_matches_prefix [0x20, 0x01, 0x00, 0x30, 0, 0, 0, 0, 0, 0, 0, 0, 0, 0, 0, 0]
     (ipv6_reserved_prefixes ! 4) = Inr 0 \<and>
   IsReservedIPv6 (Some [0x20, 0x01, 0x00, 0x30, 0, 0, 0, 0, 0, 0, 0, 0, 0, 0, 0, 0]) = Inr 0"
proof -
  let ?a = "[0x20, 0x01, 0x00, 0x17, 0xAB, 0, 0, 0, 0, 0, 0, 0, 0, 0, 0, 0x05 :: 8 word]"
  let ?b = "[0x20, 0x01, 0x00, 0x30, 0, 0, 0, 0, 0, 0, 0, 0, 0, 0, 0, 0 :: 8 word]"
  let ?pat = "ipv6_of_groups [0x2001, 0x10, 0, 0, 0, 0, 0, 0]"
  have la: "length ?a = 16" and lb: "length ?b = 16"
    by simp_all
  have a28: "leading_bits_agree 28 ?a ?pat"
    by code_simp
  have b24: "leading_bits_agree 24 ?b ?pat" and b28: "\<not> leading_bits_agree 28 ?b ?pat"
    by code_simp+
  have other: "\<not> (leading_bits_agree 28 ?b (ipv6_of_groups [0x2001, 0x20, 0, 0, 0, 0, 0, 0]) \<or>
      leading_bits_agree 32 ?b (ipv6_of_groups [0x2001, 0, 0, 0, 0, 0, 0, 0]))"
    by code_simp
  from IsReservedIPv6_orchid_prefix [OF la] a28
  have ra: "IsReservedIPv6 (Some ?a) = Inr 1"
    by blast
  from IsReservedIPv6_orchid_prefix [OF lb] b24 b28
  have rb: "ipv6_matches_prefix ?b (ipv6_reserved_prefixes ! 4) = Inr 0 \<and>
      IsReservedIPv6 (Some ?b) =
        Inr (if leading_bits_agree 28 ?b (ipv6_of_groups [0x2001, 0x20, 0, 0, 0, 0, 0, 0]) \<or>
                leading_bits_agree 32 ?b (ipv6_of_groups [0x2001, 0, 0, 0, 0, 0, 0, 0])
             then 1 else 0)"
    by blast
  with other have "ipv6_matches_prefix ?b (ipv6_reserved_prefixes ! 4) = Inr 0"
    and "IsReservedIPv6 (Some ?b) = Inr 0"
    by simp_all
  with la lb a28 b24 b28 ra show ?thesis
    by blast
qed

section \<open>Termination\<close>

text \<open>
  For a function \<open>f\<close> defined by recursion, \<open>f_rel x' x\<close> says that the body of \<open>f\<close> at
  the argument \<open>x\<close> calls \<open>f\<close> at \<open>x'\<close>: here, that one iteration of the loop leads
  from the loop variables \<open>x\<close> to \<open>x'\<close>. \<open>f_dom x\<close> says that every chain of such
  steps from \<open>x\<close> is finite.
\<close>

lemma IsReservedIPv4_loop_progress:
  "IsReservedIPv4_loop_rel (ip', left', right') (ip, left, right) \<Longrightarrow>
   left \<le> right \<and> nat (right' - left' + 1) < nat (right - left + 1)"
proof (erule IsReservedIPv4_loop_rel.cases)
  fix lo hi mid :: int and ip_host :: "32 word"
  assume eq: "(ip', left', right') = (ip_host, lo, mid - 1)" "(ip, left, right) = (ip_host, lo, hi)"
    and "lo \<le> hi" "mid = (lo + hi) sdiv 2" "\<not> (mid < 0 \<or> ipv4_ranges_count \<le> mid)"
  then have "mid \<le> hi"
    by (auto simp: signed_divide_int_def sgn_if split: if_splits)
  with eq \<open>lo \<le> hi\<close> show ?thesis by simp
next
  fix lo hi mid :: int and ip_host :: "32 word"
  assume eq: "(ip', left', right') = (ip_host, mid + 1, hi)" "(ip, left, right) = (ip_host, lo, hi)"
    and "lo \<le> hi" "mid = (lo + hi) sdiv 2" "\<not> (mid < 0 \<or> ipv4_ranges_count \<le> mid)"
  then have "lo \<le> mid"
    by (auto simp: signed_divide_int_def sgn_if split: if_splits)
  with eq \<open>lo \<le> hi\<close> show ?thesis by simp
qed

text \<open>
  The loop variables stay inside \<open>-1..9\<close>, so \<open>left + right\<close> and \<open>mid \<plusminus> 1\<close> are far
  from the limits of a 32-bit \<open>int\<close>.
\<close>

lemma IsReservedIPv4_loop_indices_bounded:
  "IsReservedIPv4_loop_rel (ip', left', right') (ip, left, right) \<Longrightarrow>
   0 \<le> left \<Longrightarrow> right < ipv4_ranges_count \<Longrightarrow>
   0 \<le> left' \<and> left' \<le> ipv4_ranges_count \<and> - 1 \<le> right' \<and> right' < ipv4_ranges_count"
  by (erule IsReservedIPv4_loop_rel.cases) auto

lemma ipv6_matches_prefix_loop_progress:
  "ipv6_matches_prefix_loop_rel (ip', p', n', i') (ip, p, n, i) \<Longrightarrow> i < n \<and> n' = n \<and> i' = i + 1"
  by (erule ipv6_matches_prefix_loop_rel.cases) simp

lemma IsReservedIPv6_loop_progress:
  "IsReservedIPv6_loop_rel (ip', i') (ip, i) \<Longrightarrow> i < ipv6_prefixes_count \<and> i' = i + 1"
  by (erule IsReservedIPv6_loop_rel.cases) simp

lemma IsReservedIPv4_loop_terminates: "All IsReservedIPv4_loop_dom"
proof -
  have "wfp IsReservedIPv4_loop_rel"
  proof (rule wfp_if_convertible_to_nat)
    fix x y
    assume step: "IsReservedIPv4_loop_rel x y"
    obtain ip' left' right' where x: "x = (ip', left', right')"
      by (rule prod_cases3)
    obtain ip left right where y: "y = (ip, left, right)"
      by (rule prod_cases3)
    from IsReservedIPv4_loop_progress [OF step [unfolded x y]]
    show "(\<lambda>(ip, left, right). nat (right - left + 1)) x
        < (\<lambda>(ip, left, right). nat (right - left + 1)) y"
      by (simp add: x y)
  qed
  then show ?thesis
    by (simp add: wfp_iff_accp)
qed

lemma ipv6_matches_prefix_loop_terminates: "All ipv6_matches_prefix_loop_dom"
proof -
  have "wfp ipv6_matches_prefix_loop_rel"
  proof (rule wfp_if_convertible_to_nat)
    fix x y
    assume step: "ipv6_matches_prefix_loop_rel x y"
    obtain ip' p' n' i' where x: "x = (ip', p', n', i')"
      by (rule prod_cases4)
    obtain ip p n i where y: "y = (ip, p, n, i)"
      by (rule prod_cases4)
    from ipv6_matches_prefix_loop_progress [OF step [unfolded x y]]
    show "(\<lambda>(ip, p, n, i). n - i) x < (\<lambda>(ip, p, n, i). n - i) y"
      by (auto simp: x y)
  qed
  then show ?thesis
    by (simp add: wfp_iff_accp)
qed

lemma IsReservedIPv6_loop_terminates: "All IsReservedIPv6_loop_dom"
proof -
  have "wfp IsReservedIPv6_loop_rel"
  proof (rule wfp_if_convertible_to_nat)
    fix x y
    assume step: "IsReservedIPv6_loop_rel x y"
    obtain ip' i' where x: "x = (ip', i')"
      by (rule prod.exhaust)
    obtain ip i where y: "y = (ip, i)"
      by (rule prod.exhaust)
    from IsReservedIPv6_loop_progress [OF step [unfolded x y]]
    show "(\<lambda>(ip, i). ipv6_prefixes_count - i) x < (\<lambda>(ip, i). ipv6_prefixes_count - i) y"
      by (auto simp: x y)
  qed
  then show ?thesis
    by (simp add: wfp_iff_accp)
qed

text \<open>
  Claim C10. Both functions terminate on every input and have no failure path. Every
  iteration of the binary search has \<open>left \<le> right\<close> and strictly shrinks
  \<open>right - left + 1\<close>, so the loop terminates from every pair of loop variables, and
  \<open>IsReservedIPv4\<close> returns 0 or 1 for every 32-bit value. Every iteration of the two
  IPv6 loops advances its counter by one below a fixed bound, so they terminate, and
  \<open>IsReservedIPv6\<close> returns 0 for the null pointer and 0 or 1 for every 16-byte
  address, without reading outside an array.
\<close>

theorem classifiers_terminate_without_fault:
  "(\<forall>ip left right ip' left' right'.
      IsReservedIPv4_loop_rel (ip', left', right') (ip, left, right) \<longrightarrow>
      left \<le> right \<and> nat (right' - left' + 1) < nat (right - left + 1)) \<and>
   All IsReservedIPv4_loop_dom \<and>
   (\<forall>a. IsReservedIPv4 a = Inr 0 \<or> IsReservedIPv4 a = Inr 1) \<and>
   (\<forall>ip p n i ip' p' n' i'.
      ipv6_matches_prefix_loop_rel (ip', p', n', i') (ip, p, n, i) \<longrightarrow>
      i < n \<and> n' = n \<and> i' = i + 1) \<and>
   (\<forall>ip i ip' i'.
      IsReservedIPv6_loop_rel (ip', i') (ip, i) \<longrightarrow> i < ipv6_prefixes_count \<and> i' = i + 1) \<and>
   All ipv6_matches_prefix_loop_dom \<and>
   All IsReservedIPv6_loop_dom \<and>
   IsReservedIPv6 None = Inr 0 \<and>
   (\<forall>ip. length ip = 16 \<longrightarrow>
      IsReservedIPv6 (Some ip) = Inr 0 \<or> IsReservedIPv6 (Some ip) = Inr 1)"
proof (intro conjI)
  show "All IsReservedIPv4_loop_dom"
    by (rule IsReservedIPv4_loop_terminates)
  show "All ipv6_matches_prefix_loop_dom"
    by (rule ipv6_matches_prefix_loop_terminates)
  show "All IsReservedIPv6_loop_dom"
    by (rule IsReservedIPv6_loop_terminates)
  show "IsReservedIPv6 None = Inr 0"
    by (simp add: IsReservedIPv6_def)
  show "\<forall>a. IsReservedIPv4 a = Inr 0 \<or> IsReservedIPv4 a = Inr 1"
    by (simp add: IsReservedIPv4_char)
  show "\<forall>ip. length ip = 16 \<longrightarrow>
      IsReservedIPv6 (Some ip) = Inr 0 \<or> IsReservedIPv6 (Some ip) = Inr 1"
    by (simp add: IsReservedIPv6_char)
  show "\<forall>ip left right ip' left' right'.
      IsReservedIPv4_loop_rel (ip', left', right') (ip, left, right) \<longrightarrow>
      left \<le> right \<and> nat (right' - left' + 1) < nat (right - left + 1)"
    using IsReservedIPv4_loop_progress by blast
  show "\<forall>ip p n i ip' p' n' i'.
      ipv6_matches_prefix_loop_rel (ip', p', n', i') (ip, p, n, i) \<longrightarrow>
      i < n \<and> n' = n \<and> i' = i + 1"
    using ipv6_matches_prefix_loop_progress by blast
  show "\<forall>ip i ip' i'.
      IsReservedIPv6_loop_rel (ip', i') (ip, i) \<longrightarrow> i < ipv6_prefixes_count \<and> i' = i + 1"
    using IsReservedIPv6_loop_progress by blast
qed

theorem classifiers_terminate_without_fault_witness:
  "IsReservedIPv4_loop_rel (0x01000000, 0, 3) (0x01000000, 0, 8) \<and>
   (0 :: int) \<le> 8 \<and> nat (3 - 0 + 1) < nat (8 - 0 + 1) \<and>
   ipv6_matches_prefix_loop_rel
     ([0x20, 0x02, 0, 0, 0, 0, 0, 0, 0, 0, 0, 0, 0, 0, 0, 0x01], ipv6_reserved_prefixes ! 3, 4, 0 + 1)
     ([0x20, 0x02, 0, 0, 0, 0, 0, 0, 0, 0, 0, 0, 0, 0, 0, 0x01], ipv6_reserved_prefixes ! 3, 4, 0) \<and>
   (0 :: nat) < 4 \<and>
   IsReservedIPv6_loop_rel
     ([0x20, 0x02, 0, 0, 0, 0, 0, 0, 0, 0, 0, 0, 0, 0, 0, 0x01], 0 + 1)
     ([0x20, 0x02, 0, 0, 0, 0, 0, 0, 0, 0, 0, 0, 0, 0, 0, 0x01], 0) \<and>
   0 < ipv6_prefixes_count \<and>
   length [0x20, 0x02, 0, 0, 0, 0, 0, 0, 0, 0, 0, 0, 0, 0, 0, 0x01 :: 8 word] = 16 \<and>
   (IsReservedIPv6 (Some [0x20, 0x02, 0, 0, 0, 0, 0, 0, 0, 0, 0, 0, 0, 0, 0, 0x01]) = Inr 0 \<or>
    IsReservedIPv6 (Some [0x20, 0x02, 0, 0, 0, 0, 0, 0, 0, 0, 0, 0, 0, 0, 0, 0x01]) = Inr 1)"
proof -
  let ?ip = "[0x20, 0x02, 0, 0, 0, 0, 0, 0, 0, 0, 0, 0, 0, 0, 0, 0x01 :: 8 word]"
  have len: "length ?ip = 16"
    by simp
  have "IsReservedIPv4_loop_rel (0x01000000, 0, 4 - 1) (0x01000000, 0, 8)"
    by (rule IsReservedIPv4_loop_rel.intros(1) [where x = 4 and xa = "ipv4_reserved_ranges ! nat 4"])
      (simp_all add: signed_divide_int_def ipv4_ranges_count_def ipv4_reserved_ranges_def)
  then have rel4: "IsReservedIPv4_loop_rel (0x01000000, 0, 3) (0x01000000, 0, 8)"
    by simp
  have relb: "ipv6_matches_prefix_loop_rel (?ip, ipv6_reserved_prefixes ! 3, 4, 0 + 1)
      (?ip, ipv6_reserved_prefixes ! 3, 4, 0)"
    by (rule ipv6_matches_prefix_loop_rel.intros [where b = "0x20" and ba = "0x20"])
      (simp_all add: byte_at_def ipv6_reserved_prefixes_def)
  have "ipv6_matches_prefix ?ip (ipv6_reserved_prefixes ! 0) = Inr 0"
    by code_simp
  then have rel6: "IsReservedIPv6_loop_rel (?ip, 0 + 1) (?ip, 0)"
    by (rule IsReservedIPv6_loop_rel.intros [where b = 0, rotated])
      (simp_all add: ipv6_prefixes_count_def ipv6_reserved_prefixes_def)
  from classifiers_terminate_without_fault [THEN conjunct1, rule_format, OF rel4]
  have p4: "(0 :: int) \<le> 8 \<and> nat (3 - 0 + 1) < nat (8 - 0 + 1)" .
  from classifiers_terminate_without_fault relb
  have pb: "(0 :: nat) < 4"
    by blast
  from classifiers_terminate_without_fault rel6
  have p6: "0 < ipv6_prefixes_count"
    by blast
  from classifiers_terminate_without_fault len
  have "IsReservedIPv6 (Some ?ip) = Inr 0 \<or> IsReservedIPv6 (Some ?ip) = Inr 1"
    by blast
  with rel4 p4 relb pb rel6 p6 len show ?thesis
    by blast
qed

end
